theory Spec2Isabelle
  imports Complex_Main "HOL-Library.Log_Nat"
begin

section \<open>Banner rendering core of scripts/release.py\<close>

text \<open>
  A Python \<open>str\<close> is a sequence of Unicode code points, so a string is modelled as a list
  of code points (natural numbers); \<open>len\<close> and \<open>enumerate\<close> count code points. Python
  integers are unbounded and are modelled by \<open>int\<close>. Every exception the modelled
  functions can raise is a value of \<open>error\<close>, returned as \<open>Inl\<close>.
\<close>

type_synonym ustring = "nat list"

datatype error = ZeroDivisionError | IndexError | OverflowError | ValueError

subsection \<open>Integer operators and list indexing of Python\<close>

definition py_floordiv :: "int \<Rightarrow> int \<Rightarrow> error + int" where
  "py_floordiv a b = (if b = 0 then Inl ZeroDivisionError else Inr (a div b))"

definition py_mod :: "int \<Rightarrow> int \<Rightarrow> error + int" where
  "py_mod a b = (if b = 0 then Inl ZeroDivisionError else Inr (a mod b))"

definition py_index :: "'a list \<Rightarrow> int \<Rightarrow> error + 'a" where
  "py_index xs k =
     (let n = int (length xs); j = (if k < 0 then n + k else k)
      in if 0 \<le> j \<and> j < n then Inr (xs ! nat j) else Inl IndexError)"

subsection \<open>strip_ansi\<close>

text \<open>
  The pattern is \<^verbatim>\<open>\x1B[@-_][0-?]*[ -/]*[@-~]\<close>. The matcher below is the backtracking
  matcher of the regular expression engine, in continuation-passing style: \<open>one\<close> consumes
  one code point of a class, \<open>star\<close> is the greedy repetition, which first tries to
  consume one more code point and falls back to the continuation at the current position
  when the longer attempt fails. A successful match returns the text after the match.
\<close>

definition is_intro :: "nat \<Rightarrow> bool" where
  "is_intro c = (64 \<le> c \<and> c \<le> 95)"

definition is_param :: "nat \<Rightarrow> bool" where
  "is_param c = (48 \<le> c \<and> c \<le> 63)"

definition is_inter :: "nat \<Rightarrow> bool" where
  "is_inter c = (32 \<le> c \<and> c \<le> 47)"

definition is_final :: "nat \<Rightarrow> bool" where
  "is_final c = (64 \<le> c \<and> c \<le> 126)"

definition one :: "(nat \<Rightarrow> bool) \<Rightarrow> (ustring \<Rightarrow> ustring option) \<Rightarrow> ustring \<Rightarrow> ustring option" where
  "one cls k xs = (case xs of [] \<Rightarrow> None | c # cs \<Rightarrow> if cls c then k cs else None)"

fun star :: "(nat \<Rightarrow> bool) \<Rightarrow> (ustring \<Rightarrow> ustring option) \<Rightarrow> ustring \<Rightarrow> ustring option" where
  "star cls k [] = k []"
| "star cls k (c # cs) =
     (if cls c
      then (case star cls k cs of Some r \<Rightarrow> Some r | None \<Rightarrow> k (c # cs))
      else k (c # cs))"

definition ansi_escape :: "ustring \<Rightarrow> ustring option" where
  "ansi_escape =
     one (\<lambda>c. c = 27) (one is_intro (star is_param (star is_inter (one is_final Some))))"

text \<open>
  \<open>re.sub\<close> with the empty replacement: scan from the left; where the pattern matches, drop
  the match and go on after it; elsewhere keep the code point and go on at the next one.
\<close>

function strip_ansi :: "ustring \<Rightarrow> ustring" where
  "strip_ansi [] = []"
| "strip_ansi (c # cs) =
     (case ansi_escape (c # cs) of
        Some rest \<Rightarrow> strip_ansi rest
      | None \<Rightarrow> c # strip_ansi cs)"
  by pat_completeness auto
termination
proof (relation "measure length")
  fix c :: nat and cs rest :: ustring
  have one_shorter: "length r < length xs"
    if "one cls k xs = Some r" and "\<And>ys r'. k ys = Some r' \<Longrightarrow> length r' \<le> length ys"
    for cls k xs r
  proof (cases xs)
    case Nil
    with that(1) show ?thesis by (simp add: one_def)
  next
    case (Cons d ds)
    with that(1) have "k ds = Some r"
      by (simp add: one_def split: if_splits)
    then have "length r \<le> length ds" by (rule that(2))
    with Cons show ?thesis by simp
  qed
  have star_shorter: "length r \<le> length xs"
    if "star cls k xs = Some r" and k: "\<And>ys r'. k ys = Some r' \<Longrightarrow> length r' \<le> length ys"
    for cls k xs r
    using that(1)
  proof (induction xs)
    case Nil
    then show ?case using k [of "[]" r] by simp
  next
    case (Cons d ds)
    show ?case
    proof (cases "cls d \<and> star cls k ds \<noteq> None")
      case True
      with Cons.prems have "star cls k ds = Some r" by auto
      then have "length r \<le> length ds" by (rule Cons.IH)
      then show ?thesis by simp
    next
      case False
      with Cons.prems have "k (d # ds) = Some r" by (auto split: if_splits)
      then show ?thesis by (rule k)
    qed
  qed
  assume "ansi_escape (c # cs) = Some rest"
  then have "length rest < length (c # cs)"
    unfolding ansi_escape_def
    by (elim one_shorter [THEN less_imp_le] one_shorter star_shorter) simp
  then show "(rest, c # cs) \<in> measure length" by simp
qed simp_all

subsection \<open>apply_gradient\<close>

text \<open>
  The generator inside \<open>"".join\<close>: for the code point \<open>ch\<close> at position \<open>i\<close> it evaluates
  \<open>(i + line_number) % len(gradient)\<close>, indexes the gradient and yields the color code
  followed by \<open>ch\<close>. The first failing element aborts the whole call.
\<close>

fun colored_chars :: "nat \<Rightarrow> ustring \<Rightarrow> ustring list \<Rightarrow> int \<Rightarrow> error + ustring list" where
  "colored_chars i [] gradient line_number = Inr []"
| "colored_chars i (ch # rest) gradient line_number =
     (case py_mod (int i + line_number) (int (length gradient)) of
        Inl e \<Rightarrow> Inl e
      | Inr k \<Rightarrow>
          (case py_index gradient k of
             Inl e \<Rightarrow> Inl e
           | Inr code \<Rightarrow>
               (case colored_chars (Suc i) rest gradient line_number of
                  Inl e \<Rightarrow> Inl e
                | Inr ps \<Rightarrow> Inr ((code @ [ch]) # ps))))"

definition apply_gradient :: "ustring \<Rightarrow> ustring list \<Rightarrow> int \<Rightarrow> error + ustring" where
  "apply_gradient text gradient line_number =
     (case colored_chars 0 text gradient line_number of
        Inl e \<Rightarrow> Inl e
      | Inr ps \<Rightarrow> Inr (concat ps))"

subsection \<open>Binary64 floating point, as far as generate_gradient uses it\<close>

text \<open>
  A Python \<open>float\<close> is an IEEE 754 binary64 value: a finite value, an infinity or NaN.
  Finite values are kept as the rational number they denote; the sign of a zero is not
  kept, since nothing in the modelled code divides by a float or prints one. Every
  operation returns the exact result rounded to the nearest binary64 value, ties to the
  even significand. For a positive \<open>x\<close>, \<open>round_to_53 x\<close> is the significand \<open>m\<close> and the
  exponent \<open>e\<close> of the rounded value \<open>m * 2 powi e\<close>: 53 significant bits, the exponent
  never below \<open>- 1074\<close> (the spacing of the subnormal values). The largest finite value is
  \<open>(2 ^ 53 - 1) * 2 ^ 971\<close>; \<open>to_float\<close> turns a rounded magnitude beyond it, that is of
  \<open>2 ^ 1024\<close> or more, into an infinity.
\<close>

datatype float = Fin rat | PInf | NInf | NaN

definition round_half_even :: "rat \<Rightarrow> int" where
  "round_half_even q =
     (let f = \<lfloor>q\<rfloor>; d = q - of_int f
      in if d < 1 / 2 then f else if 1 / 2 < d then f + 1 else if even f then f else f + 1)"

definition floor_log2 :: "rat \<Rightarrow> int" where
  "floor_log2 x =
     (let k = bitlen (fst (quotient_of x)) - bitlen (snd (quotient_of x))
      in if 2 powi k \<le> x then k else k - 1)"

definition round_to_53 :: "rat \<Rightarrow> int \<times> int" where
  "round_to_53 x =
     (let e = max (floor_log2 x - 52) (- 1074);
          m = round_half_even (x / 2 powi e)
      in (m, e))"

definition to_float :: "rat \<Rightarrow> float" where
  "to_float x =
     (if x = 0 then Fin 0
      else let (m, e) = round_to_53 \<bar>x\<bar>
           in if 971 < e \<or> (e = 971 \<and> m = 2 ^ 53)
              then (if 0 < x then PInf else NInf)
              else Fin (sgn x * of_int m * 2 powi e))"

definition fneg :: "float \<Rightarrow> float" where
  "fneg a = (case a of Fin x \<Rightarrow> Fin (- x) | PInf \<Rightarrow> NInf | NInf \<Rightarrow> PInf | NaN \<Rightarrow> NaN)"

fun fadd :: "float \<Rightarrow> float \<Rightarrow> float" where
  "fadd NaN b = NaN"
| "fadd a NaN = NaN"
| "fadd (Fin x) (Fin y) = to_float (x + y)"
| "fadd PInf NInf = NaN"
| "fadd NInf PInf = NaN"
| "fadd PInf b = PInf"
| "fadd NInf b = NInf"
| "fadd (Fin x) b = b"

definition fsub :: "float \<Rightarrow> float \<Rightarrow> float" where
  "fsub a b = fadd a (fneg b)"

definition inf_times :: "float \<Rightarrow> rat \<Rightarrow> float" where
  "inf_times a x = (if x = 0 then NaN else if 0 < x then a else fneg a)"

fun fmul :: "float \<Rightarrow> float \<Rightarrow> float" where
  "fmul NaN b = NaN"
| "fmul a NaN = NaN"
| "fmul (Fin x) (Fin y) = to_float (x * y)"
| "fmul (Fin x) b = inf_times b x"
| "fmul a (Fin y) = inf_times a y"
| "fmul PInf b = b"
| "fmul NInf b = fneg b"

text \<open>
  \<open>float_of_int\<close> is the conversion of an \<open>int\<close> operand of a mixed \<open>int\<close>/\<open>float\<close>
  operation, \<open>py_truediv\<close> is \<open>/\<close> on two \<open>int\<close>s; both are correctly rounded and raise
  OverflowError instead of returning an infinity. \<open>int_of_float\<close> is \<open>int(x)\<close>, which
  truncates towards zero and raises on an infinity or NaN.
\<close>

definition float_of_int :: "int \<Rightarrow> error + float" where
  "float_of_int i = (case to_float (of_int i) of Fin y \<Rightarrow> Inr (Fin y) | _ \<Rightarrow> Inl OverflowError)"

definition py_truediv :: "int \<Rightarrow> int \<Rightarrow> error + float" where
  "py_truediv a b =
     (if b = 0 then Inl ZeroDivisionError
      else case to_float (of_int a / of_int b) of
             Fin y \<Rightarrow> Inr (Fin y)
           | _ \<Rightarrow> Inl OverflowError)"

definition int_of_float :: "float \<Rightarrow> error + int" where
  "int_of_float a =
     (case a of
        Fin x \<Rightarrow> Inr (if 0 \<le> x then \<lfloor>x\<rfloor> else \<lceil>x\<rceil>)
      | PInf \<Rightarrow> Inl OverflowError
      | NInf \<Rightarrow> Inl OverflowError
      | NaN \<Rightarrow> Inl ValueError)"

subsection \<open>generate_gradient\<close>

definition ebind :: "error + 'a \<Rightarrow> ('a \<Rightarrow> error + 'b) \<Rightarrow> error + 'b" where
  "ebind m f = (case m of Inl e \<Rightarrow> Inl e | Inr x \<Rightarrow> f x)"

text \<open>A \<open>for\<close> loop that appends one result per element and stops at the first exception.\<close>

fun emap :: "('a \<Rightarrow> error + 'b) \<Rightarrow> 'a list \<Rightarrow> error + 'b list" where
  "emap f [] = Inr []"
| "emap f (x # xs) = ebind (f x) (\<lambda>y. ebind (emap f xs) (\<lambda>ys. Inr (y # ys)))"

definition py_range :: "int \<Rightarrow> int list" where
  "py_range n = map int [0..<nat n]"

text \<open>\<open>str\<close> of an \<open>int\<close>, as an f-string field renders it: decimal digits, \<open>-\<close> when negative.\<close>

fun digits :: "nat \<Rightarrow> ustring" where
  "digits n = (if n < 10 then [48 + n] else digits (n div 10) @ [48 + n mod 10])"

declare digits.simps [simp del]

definition str_int :: "int \<Rightarrow> ustring" where
  "str_int i = (if i < 0 then 45 # digits (nat (- i)) else digits (nat i))"

type_synonym color = "int \<times> int \<times> int"

definition red :: "color \<Rightarrow> int" where
  "red c = fst c"

definition green :: "color \<Rightarrow> int" where
  "green c = fst (snd c)"

definition blue :: "color \<Rightarrow> int" where
  "blue c = snd (snd c)"

text \<open>\<open>int(s * (1 - t) + e * t)\<close> for one channel, \<open>s\<close> and \<open>e\<close> being \<open>int\<close>s and \<open>t\<close> a \<open>float\<close>.\<close>

definition channel :: "int \<Rightarrow> int \<Rightarrow> float \<Rightarrow> error + int" where
  "channel s e t =
     ebind (float_of_int 1) (\<lambda>one_f.
     ebind (float_of_int s) (\<lambda>s_f.
     ebind (float_of_int e) (\<lambda>e_f.
       int_of_float (fadd (fmul s_f (fsub one_f t)) (fmul e_f t)))))"

text \<open>The f-string \<^verbatim>\<open>\033[38;2;{r};{g};{b}m\<close>.\<close>

definition color_code :: "int \<Rightarrow> int \<Rightarrow> int \<Rightarrow> ustring" where
  "color_code r g b =
     [27, 91, 51, 56, 59, 50, 59] @ str_int r @ [59] @ str_int g @ [59] @ str_int b @ [109]"

text \<open>The body of the inner loop, for step \<open>j\<close> of the segment from \<open>start_color\<close> to \<open>end_color\<close>.\<close>

definition gradient_step :: "color \<Rightarrow> color \<Rightarrow> int \<Rightarrow> int \<Rightarrow> error + ustring" where
  "gradient_step start_color end_color steps_per_segment j =
     ebind (py_truediv j steps_per_segment) (\<lambda>t.
     ebind (channel (red start_color) (red end_color) t) (\<lambda>r.
     ebind (channel (green start_color) (green end_color) t) (\<lambda>g.
     ebind (channel (blue start_color) (blue end_color) t) (\<lambda>b.
       Inr (color_code r g b)))))"

text \<open>The body of the outer loop: the codes that segment \<open>i\<close> appends.\<close>

definition gradient_segment :: "color list \<Rightarrow> int \<Rightarrow> int \<Rightarrow> error + ustring list" where
  "gradient_segment colors steps_per_segment i =
     ebind (py_index colors i) (\<lambda>start_color.
     ebind (py_index colors (i + 1)) (\<lambda>end_color.
       emap (gradient_step start_color end_color steps_per_segment)
         (py_range steps_per_segment)))"

definition generate_gradient :: "color list \<Rightarrow> int \<Rightarrow> error + ustring list" where
  "generate_gradient colors steps =
     (let segments = int (length colors) - 1
      in ebind (py_floordiv steps segments) (\<lambda>q.
           let steps_per_segment = max 1 q
           in ebind (emap (gradient_segment colors steps_per_segment) (py_range segments))
                (\<lambda>parts. Inr (concat parts))))"

subsection \<open>center_text\<close>

text \<open>
  \<open>wcswidth\<close> comes from the third-party package \<open>wcwidth\<close>; \<open>center_text\<close> takes it as the
  parameter \<open>wcswidth\<close>. \<open>' ' * n\<close> is the empty string for a negative \<open>n\<close>.
\<close>

definition spaces :: "int \<Rightarrow> ustring" where
  "spaces n = replicate (nat n) 32"

definition center_text :: "(ustring \<Rightarrow> int) \<Rightarrow> ustring \<Rightarrow> int \<Rightarrow> ustring" where
  "center_text wcswidth text width =
     (let visible_length = wcswidth (strip_ansi text);
          padding = max ((width - visible_length) div 2) 0
      in spaces padding @ text @ spaces (width - padding - visible_length))"

subsection \<open>Visible width\<close>

text \<open>
  Modelled from the spec: \<open>wcswidth\<close> (package \<open>wcwidth\<close>) is not under src/. Section 4.2 of
  the specification gives the measurement: after the escape sequences are stripped, sum
  over the remaining code points their display width, 0 for a zero-width or combining
  mark, 2 for a code point of a wide range, 1 otherwise, a malformed or unknown code point
  falling back to width 1. The classification table itself is the parameter \<open>classify\<close>,
  \<open>None\<close> standing for a code point that it does not know.
\<close>

datatype width_class = ZeroWidth | Narrow | Wide

definition spec_wcwidth :: "(nat \<Rightarrow> width_class option) \<Rightarrow> nat \<Rightarrow> int" where
  "spec_wcwidth classify c =
     (case classify c of
        Some ZeroWidth \<Rightarrow> 0
      | Some Wide \<Rightarrow> 2
      | Some Narrow \<Rightarrow> 1
      | None \<Rightarrow> 1)"

definition spec_wcswidth :: "(nat \<Rightarrow> width_class option) \<Rightarrow> ustring \<Rightarrow> int" where
  "spec_wcswidth classify s = sum_list (map (spec_wcwidth classify) s)"

definition visibleWidth :: "(nat \<Rightarrow> width_class option) \<Rightarrow> ustring \<Rightarrow> int" where
  "visibleWidth classify line = spec_wcswidth classify (strip_ansi line)"

subsection \<open>Vocabulary of the properties\<close>

text \<open>
  A Color of the data model: an RGB triple with every channel in the range 0 to 255. The
  type of the code, a tuple of three \<open>int\<close>s, is wider.
\<close>

definition valid_color :: "color \<Rightarrow> bool" where
  "valid_color c =
     (0 \<le> red c \<and> red c \<le> 255 \<and> 0 \<le> green c \<and> green c \<le> 255
      \<and> 0 \<le> blue c \<and> blue c \<le> 255)"

text \<open>A color code whose three fields are non-negative numbers.\<close>

definition rgb_code :: "ustring \<Rightarrow> bool" where
  "rgb_code c = (\<exists>r g b. c = color_code r g b \<and> 0 \<le> r \<and> 0 \<le> g \<and> 0 \<le> b)"

section \<open>Properties\<close>

subsection \<open>Helper facts\<close>

lemma py_mod_pos: "0 < b \<Longrightarrow> py_mod a b = Inr (a mod b)"
  by (simp add: py_mod_def)

lemma py_index_in_range: "0 \<le> k \<Longrightarrow> k < int (length xs) \<Longrightarrow> py_index xs k = Inr (xs ! nat k)"
  by (simp add: py_index_def Let_def)

lemma ebind_simps: "ebind (Inl e) f = Inl e" "ebind (Inr x) f = f x"
  by (simp_all add: ebind_def)

lemma colored_chars_nonempty:
  assumes "gradient \<noteq> []"
  shows "colored_chars i text gradient n =
    Inr (map (\<lambda>(k, ch). gradient ! nat ((int k + n) mod int (length gradient)) @ [ch])
          (enumerate i text))"
proof (induction "text" arbitrary: i)
  case Nil
  show ?case by simp
next
  case (Cons ch rest)
  let ?L = "int (length gradient)"
  from assms have pos: "0 < ?L" by simp
  have lo: "0 \<le> (int i + n) mod ?L" and hi: "(int i + n) mod ?L < ?L"
    using pos by simp_all
  show ?case
    by (simp add: py_mod_pos [OF pos] py_index_in_range [OF lo hi] Cons.IH)
qed

lemma strip_ansi_keep: "c \<noteq> 27 \<Longrightarrow> strip_ansi (c # cs) = c # strip_ansi cs"
  by (simp add: ansi_escape_def one_def)

lemma strip_ansi_no_esc: "27 \<notin> set s \<Longrightarrow> strip_ansi s = s"
proof (induction s)
  case Nil
  show ?case by simp
next
  case (Cons c cs)
  then show ?case by (simp add: strip_ansi_keep del: strip_ansi.simps)
qed

subsection \<open>Rounding to binary64 keeps small non-negative bounds\<close>

lemma round_half_even_nonneg: "0 \<le> q \<Longrightarrow> 0 \<le> round_half_even q"
  by (auto simp add: round_half_even_def Let_def)

lemma round_half_even_le: "q \<le> of_int N \<Longrightarrow> round_half_even q \<le> N"
proof -
  assume le: "q \<le> of_int N"
  then have f: "\<lfloor>q\<rfloor> \<le> N" by (simp add: floor_le_iff) 
  have "\<lfloor>q\<rfloor> + 1 \<le> N" if "q \<noteq> of_int \<lfloor>q\<rfloor>"
  proof -
    have "of_int \<lfloor>q\<rfloor> < q"
      by (rule le_neq_trans [OF of_int_floor_le that [symmetric]])
    with le have "(of_int \<lfloor>q\<rfloor> :: rat) < of_int N" by simp
    then show ?thesis by simp
  qed
  with f show ?thesis
    by (auto simp add: round_half_even_def Let_def)
qed

lemma floor_log2_lower:
  assumes "0 < x"
  shows "2 powi (floor_log2 x) \<le> x"
proof -
  obtain p q where pq: "quotient_of x = (p, q)" by (cases "quotient_of x")
  then have q: "0 < q" by (rule quotient_of_denom_pos)
  from pq have x: "x = of_int p / of_int q" by (rule quotient_of_div)
  with assms q have p: "0 < p" by (simp add: zero_less_divide_iff)
  let ?k = "bitlen p - bitlen q"
  have lo: "(2::rat) powi (bitlen p - 1) \<le> of_int p"
  proof -
    have "bitlen p - 1 \<ge> 0" using p by (simp add: bitlen_alt_def)
    then have "(2::rat) powi (bitlen p - 1) = of_int (2 ^ nat (bitlen p - 1))"
      by (simp add: power_int_def)
    also have "\<dots> \<le> of_int p" using bitlen_bounds [OF p] by (simp only: of_int_le_iff)
    finally show ?thesis .
  qed
  have hi: "of_int q \<le> (2::rat) powi (bitlen q)"
  proof -
    have "(2::rat) powi (bitlen q) = of_int (2 ^ nat (bitlen q))"
      using bitlen_nonneg [of q] by (simp add: power_int_def)
    moreover have "(of_int q :: rat) \<le> of_int (2 ^ nat (bitlen q))"
      using bitlen_bounds [OF q] by (simp only: of_int_le_iff less_imp_le)
    ultimately show ?thesis by simp
  qed
  have "(2::rat) powi (?k - 1) = 2 powi (bitlen p - 1) / 2 powi (bitlen q)"
    using power_int_diff [of "2::rat" "bitlen p - 1" "bitlen q"] by (simp add: algebra_simps)
  also have "\<dots> \<le> of_int p / of_int q"
    using lo hi p q by (intro frac_le) simp_all
  finally have "(2::rat) powi (?k - 1) \<le> x" using x by simp
  then show ?thesis
    using pq by (simp add: floor_log2_def Let_def)
qed

lemma to_float_bounded:
  assumes "0 \<le> x" and "x \<le> of_nat B" and "B < 2 ^ 53"
  shows "\<exists>y. to_float x = Fin y \<and> 0 \<le> y \<and> y \<le> of_nat B"
proof (cases "x = 0")
  case True
  then show ?thesis by (simp add: to_float_def)
next
  case False
  with assms(1) have pos: "0 < x" by simp
  define e where "e = max (floor_log2 x - 52) (- 1074)"
  define m where "m = round_half_even (x / 2 powi e)"
  have rt: "round_to_53 x = (m, e)" by (simp add: round_to_53_def Let_def e_def m_def)
  have "(2::rat) powi (floor_log2 x) \<le> x" by (rule floor_log2_lower [OF pos])
  also have "x \<le> of_nat B" by fact
  also have "(of_nat B :: rat) < 2 powi 53" using assms(3)
    by (metis of_nat_less_iff of_nat_numeral of_nat_power power_int_numeral)
  finally have "floor_log2 x < 53"
    by (rule power_int_le_imp_less_exp [rotated]) simp_all
  then have e0: "e \<le> 0" by (simp add: e_def)
  define s :: nat where "s = nat (- e)"
  have pe: "(2::rat) powi e = 1 / 2 ^ s" using e0
    by (simp add: power_int_def s_def field_simps)
  have "x / 2 powi e = x * 2 ^ s" by (simp add: pe)
  also have "\<dots> \<le> of_nat B * 2 ^ s" using assms(2) by simp
  also have "\<dots> = of_int (int (B * 2 ^ s))" by simp
  finally have mB: "m \<le> int (B * 2 ^ s)" unfolding m_def by (rule round_half_even_le)
  have m0: "0 \<le> m" unfolding m_def using pos by (intro round_half_even_nonneg) simp
  have "(of_int m :: rat) \<le> of_int (int (B * 2 ^ s))" using mB by (simp only: of_int_le_iff)
  then have "(of_int m :: rat) * 2 powi e \<le> of_nat B"
    by (simp add: pe field_simps)
  moreover have "0 \<le> (of_int m :: rat) * 2 powi e" using m0 by simp
  moreover have "to_float x = Fin (of_int m * 2 powi e)"
    using pos e0 by (simp add: to_float_def rt)
  ultimately show ?thesis by simp
qed

subsection \<open>The rounding is the one of binary64\<close>

text \<open>
  For a positive \<open>x\<close>, the pair \<open>(m, e)\<close> of \<open>round_to_53 x\<close> denotes a value within half a
  unit in the last place of \<open>x\<close>; the significand has at most 53 bits, or is \<open>2 ^ 53\<close> when
  the rounding carries into the next binade; it has exactly 53 bits unless the exponent is
  the smallest one; and a tie goes to the even significand.
\<close>

lemma floor_log2_upper:
  assumes "0 < x"
  shows "x < 2 powi (floor_log2 x + 1)"
proof -
  obtain p q where pq: "quotient_of x = (p, q)" by (cases "quotient_of x")
  then have q: "0 < q" by (rule quotient_of_denom_pos)
  from pq have x: "x = of_int p / of_int q" by (rule quotient_of_div)
  with assms q have p: "0 < p" by (simp add: zero_less_divide_iff)
  let ?k = "bitlen p - bitlen q"
  show ?thesis
  proof (cases "2 powi ?k \<le> x")
    case False
    with pq show ?thesis by (simp add: floor_log2_def Let_def)
  next
    case True
    have hi: "(of_int p :: rat) < 2 powi (bitlen p)"
    proof -
      have "(2::rat) powi (bitlen p) = of_int (2 ^ nat (bitlen p))"
        using bitlen_nonneg [of p] by (simp add: power_int_def)
      moreover have "(of_int p :: rat) < of_int (2 ^ nat (bitlen p))"
        using bitlen_bounds [OF p] by (simp only: of_int_less_iff)
      ultimately show ?thesis by simp
    qed
    have lo: "(2::rat) powi (bitlen q - 1) \<le> of_int q"
    proof -
      have "bitlen q - 1 \<ge> 0" using q by (simp add: bitlen_alt_def)
      then have "(2::rat) powi (bitlen q - 1) = of_int (2 ^ nat (bitlen q - 1))"
        by (simp add: power_int_def)
      also have "\<dots> \<le> of_int q" using bitlen_bounds [OF q] by (simp only: of_int_le_iff)
      finally show ?thesis .
    qed
    have "x = of_int p / of_int q" by (rule x)
    also have "\<dots> \<le> of_int p / 2 powi (bitlen q - 1)"
      using lo p by (intro divide_left_mono) (simp_all add: q)
    also have "\<dots> < 2 powi (bitlen p) / 2 powi (bitlen q - 1)"
      using hi by (intro divide_strict_right_mono) simp_all
    also have "\<dots> = (2::rat) powi (?k + 1)"
      using power_int_diff [of "2::rat" "bitlen p" "bitlen q - 1"] by (simp add: algebra_simps)
    finally show ?thesis using True pq by (simp add: floor_log2_def Let_def)
  qed
qed

lemma round_half_even_ge: "of_int N \<le> q \<Longrightarrow> N \<le> round_half_even q"
proof -
  assume "of_int N \<le> q"
  then have "N \<le> \<lfloor>q\<rfloor>" by (simp add: le_floor_iff)
  then show ?thesis by (auto simp add: round_half_even_def Let_def)
qed

lemma round_half_even_error: "\<bar>of_int (round_half_even q) - q\<bar> \<le> 1 / 2"
proof -
  have f1: "of_int \<lfloor>q\<rfloor> \<le> q" and f2: "q < of_int \<lfloor>q\<rfloor> + 1" by linarith+
  consider (below) "q - of_int \<lfloor>q\<rfloor> < 1 / 2" | (above) "1 / 2 < q - of_int \<lfloor>q\<rfloor>"
    | (tie) "q - of_int \<lfloor>q\<rfloor> = 1 / 2" by linarith
  then show ?thesis
  proof cases
    case below
    then have "round_half_even q = \<lfloor>q\<rfloor>" by (simp add: round_half_even_def Let_def)
    with below f1 show ?thesis by simp
  next
    case above
    then have "round_half_even q = \<lfloor>q\<rfloor> + 1" by (simp add: round_half_even_def Let_def)
    with above f2 show ?thesis by simp
  next
    case tie
    then have "round_half_even q = \<lfloor>q\<rfloor> \<or> round_half_even q = \<lfloor>q\<rfloor> + 1"
      by (simp add: round_half_even_def Let_def)
    with tie show ?thesis by auto
  qed
qed

lemma round_half_even_tie:
  "q - of_int \<lfloor>q\<rfloor> = 1 / 2 \<Longrightarrow> even (round_half_even q)"
  by (simp add: round_half_even_def Let_def)

lemma round_to_53_nearest:
  assumes "0 < x" and "round_to_53 x = (m, e)"
  shows "\<bar>x - of_int m * 2 powi e\<bar> \<le> 2 powi e / 2"
    and "0 \<le> m" and "m \<le> 2 ^ 53" and "- 1074 \<le> e" and "- 1074 < e \<Longrightarrow> 2 ^ 52 \<le> m"
proof -
  from assms(2) have e: "e = max (floor_log2 x - 52) (- 1074)"
    by (simp add: round_to_53_def Let_def)
  from assms(2) have m: "m = round_half_even (x / 2 powi e)"
    unfolding e by (simp add: round_to_53_def Let_def)
  have pe: "0 < (2::rat) powi e" by simp
  have "\<bar>x - of_int m * 2 powi e\<bar> = \<bar>of_int m - x / 2 powi e\<bar> * 2 powi e"
  proof -
    have "x - of_int m * 2 powi e = (x / 2 powi e - of_int m) * 2 powi e"
      by (simp add: field_simps)
    then show ?thesis by (simp add: abs_mult abs_minus_commute)
  qed
  also have "\<dots> \<le> 1 / 2 * 2 powi e"
    unfolding m using round_half_even_error [of "x / 2 powi e"]
    by (intro mult_right_mono) simp_all
  finally show "\<bar>x - of_int m * 2 powi e\<bar> \<le> 2 powi e / 2" by simp
  show "0 \<le> m" unfolding m using assms(1) by (intro round_half_even_nonneg) simp
  show "- 1074 \<le> e" by (simp add: e)
  have "x < 2 powi (floor_log2 x + 1)" by (rule floor_log2_upper [OF assms(1)])
  also have "\<dots> \<le> 2 powi (e + 53)"
    by (intro power_int_increasing) (simp_all add: e)
  also have "\<dots> = 2 powi e * 2 ^ 53"
    using power_int_add [of "2::rat" e 53] by simp
  finally have "x / 2 powi e < 2 ^ 53" by (simp add: field_simps)
  then have "x / 2 powi e \<le> of_int (2 ^ 53)" by simp
  then show "m \<le> 2 ^ 53" unfolding m by (rule round_half_even_le)
  show "2 ^ 52 \<le> m" if "- 1074 < e"
  proof -
    from that have e': "e = floor_log2 x - 52" by (simp add: e max_def split: if_splits)
    have "(2::rat) powi e * 2 ^ 52 = 2 powi (e + 52)"
      using power_int_add [of "2::rat" e 52] by simp
    also have "\<dots> = 2 powi (floor_log2 x)" by (simp add: e')
    also have "\<dots> \<le> x" by (rule floor_log2_lower [OF assms(1)])
    finally have "of_int (2 ^ 52) \<le> x / 2 powi e" by (simp add: field_simps)
    then show ?thesis unfolding m by (rule round_half_even_ge)
  qed
qed

subsection \<open>generate_gradient on colors of the data model\<close>

lemma to_float_one: "to_float 1 = Fin 1"
  by code_simp

lemma float_of_int_byte:
  assumes "0 \<le> s" and "s \<le> 255"
  shows "\<exists>y. float_of_int s = Inr (Fin y) \<and> 0 \<le> y \<and> y \<le> 255"
proof -
  have "(of_int s :: rat) \<le> of_nat 255" using assms(2) by (simp add: of_int_le_iff [symmetric] del: of_int_le_iff)
  from to_float_bounded [OF _ this] assms(1)
  obtain y where "to_float (of_int s) = Fin y" "0 \<le> y" "y \<le> 255" by auto
  then show ?thesis by (simp add: float_of_int_def)
qed

lemma channel_valid:
  assumes s: "0 \<le> s" "s \<le> 255" and e: "0 \<le> e" "e \<le> 255" and t: "0 \<le> t" "t \<le> 1"
  shows "\<exists>r. channel s e (Fin t) = Inr r \<and> 0 \<le> r"
proof -
  obtain sf where sf: "float_of_int s = Inr (Fin sf)" "0 \<le> sf" "sf \<le> 255"
    using float_of_int_byte [OF s] by auto
  obtain ef where ef: "float_of_int e = Inr (Fin ef)" "0 \<le> ef" "ef \<le> 255"
    using float_of_int_byte [OF e] by auto
  have one: "float_of_int 1 = Inr (Fin 1)"
    by (simp add: float_of_int_def to_float_one)
  have "0 \<le> 1 - t" "1 - t \<le> of_nat 1" using t by simp_all
  from to_float_bounded [OF this]
  obtain u where u: "to_float (1 - t) = Fin u" "0 \<le> u" "u \<le> 1" by auto
  have "0 \<le> sf * u" using sf u by simp
  moreover have "sf * u \<le> of_nat 255"
    using mult_mono [of sf 255 u 1] sf u by simp
  ultimately obtain a where a: "to_float (sf * u) = Fin a" "0 \<le> a" "a \<le> 255"
    using to_float_bounded [of "sf * u" 255] by auto
  have "0 \<le> ef * t" using ef t by simp
  moreover have "ef * t \<le> of_nat 255"
    using mult_mono [of ef 255 t 1] ef t by simp
  ultimately obtain b where b: "to_float (ef * t) = Fin b" "0 \<le> b" "b \<le> 255"
    using to_float_bounded [of "ef * t" 255] by auto
  have "0 \<le> a + b" "a + b \<le> of_nat 510" using a b by simp_all
  from to_float_bounded [OF this]
  obtain c where c: "to_float (a + b) = Fin c" "0 \<le> c" by auto
  have "channel s e (Fin t) = Inr \<lfloor>c\<rfloor>"
    using c by (simp add: channel_def ebind_simps one sf ef fsub_def fneg_def u a b int_of_float_def)
  moreover have "0 \<le> \<lfloor>c\<rfloor>" using c by simp
  ultimately show ?thesis by simp
qed

lemma py_truediv_unit:
  assumes "0 \<le> j" and "j < n"
  shows "\<exists>t. py_truediv j n = Inr (Fin t) \<and> 0 \<le> t \<and> t \<le> 1"
proof -
  have "0 \<le> (of_int j / of_int n :: rat)" using assms by simp
  moreover have "(of_int j / of_int n :: rat) \<le> of_nat 1" using assms by simp
  ultimately obtain t where "to_float (of_int j / of_int n) = Fin t" "0 \<le> t" "t \<le> 1"
    using to_float_bounded [of "of_int j / of_int n" 1] by auto
  then show ?thesis using assms by (simp add: py_truediv_def)
qed

lemma gradient_step_valid:
  assumes "valid_color start_color" and "valid_color end_color" and "0 \<le> j" and "j < n"
  shows "\<exists>c. gradient_step start_color end_color n j = Inr c \<and> rgb_code c"
proof -
  obtain t where t: "py_truediv j n = Inr (Fin t)" "0 \<le> t" "t \<le> 1"
    using py_truediv_unit [OF assms(3,4)] by auto
  obtain r where r: "channel (red start_color) (red end_color) (Fin t) = Inr r" "0 \<le> r"
    using channel_valid [OF _ _ _ _ t(2,3)] assms(1,2) unfolding valid_color_def by blast
  obtain g where g: "channel (green start_color) (green end_color) (Fin t) = Inr g" "0 \<le> g"
    using channel_valid [OF _ _ _ _ t(2,3)] assms(1,2) unfolding valid_color_def by blast
  obtain b where b: "channel (blue start_color) (blue end_color) (Fin t) = Inr b" "0 \<le> b"
    using channel_valid [OF _ _ _ _ t(2,3)] assms(1,2) unfolding valid_color_def by blast
  show ?thesis
    using r g b by (auto simp add: gradient_step_def ebind_simps t rgb_code_def)
qed

lemma emap_all:
  assumes "\<forall>x\<in>set xs. \<exists>y. f x = Inr y \<and> P y"
  shows "\<exists>ys. emap f xs = Inr ys \<and> length ys = length xs \<and> (\<forall>y\<in>set ys. P y)"
  using assms
proof (induction xs)
  case Nil
  show ?case by simp
next
  case (Cons x xs)
  then obtain y where y: "f x = Inr y" "P y" by auto
  from Cons obtain ys where ys: "emap f xs = Inr ys" "length ys = length xs" "\<forall>y\<in>set ys. P y"
    by auto
  show ?case by (simp add: y ys ebind_simps)
qed

lemma gradient_segment_valid:
  assumes "\<forall>c\<in>set colors. valid_color c" and "0 \<le> i" and "i + 1 < int (length colors)"
  shows "\<exists>codes. gradient_segment colors n i = Inr codes \<and> length codes = nat n
           \<and> (\<forall>c\<in>set codes. rgb_code c)"
proof -
  have i0: "py_index colors i = Inr (colors ! nat i)"
    using assms(2,3) by (intro py_index_in_range) simp_all
  have i1: "py_index colors (i + 1) = Inr (colors ! nat (i + 1))"
    using assms(2,3) by (intro py_index_in_range) simp_all
  have v0: "valid_color (colors ! nat i)" using assms by simp
  have v1: "valid_color (colors ! nat (i + 1))" using assms by simp
  have "\<forall>j\<in>set (py_range n). \<exists>c. gradient_step (colors ! nat i) (colors ! nat (i + 1)) n j = Inr c \<and> rgb_code c"
    by (auto simp add: py_range_def intro!: gradient_step_valid [OF v0 v1])
  from emap_all [OF this] show ?thesis
    by (simp add: gradient_segment_def ebind_simps i0 i1 py_range_def)
qed

lemma generate_gradient_valid:
  assumes "2 \<le> length colors" and "\<forall>c\<in>set colors. valid_color c"
  shows "\<exists>g. generate_gradient colors steps = Inr g
           \<and> int (length g) = (int (length colors) - 1) * max 1 (steps div (int (length colors) - 1))
           \<and> (\<forall>c\<in>set g. rgb_code c)"
proof -
  define segments where "segments = int (length colors) - 1"
  define n where "n = max 1 (steps div segments)"
  have seg: "0 < segments" using assms(1) by (simp add: segments_def)
  have "\<forall>i\<in>set (py_range segments). \<exists>codes. gradient_segment colors n i = Inr codes
          \<and> (length codes = nat n \<and> (\<forall>c\<in>set codes. rgb_code c))"
    by (auto simp add: py_range_def segments_def intro!: gradient_segment_valid [OF assms(2)])
  from emap_all [OF this]
  obtain parts where parts: "emap (gradient_segment colors n) (py_range segments) = Inr parts"
    "length parts = nat segments" "\<forall>p\<in>set parts. length p = nat n \<and> (\<forall>c\<in>set p. rgb_code c)"
    by (auto simp add: py_range_def)
  have "length (concat parts) = length parts * nat n"
    using parts(3) by (induction parts) simp_all
  then have len: "int (length (concat parts)) = segments * n"
    using parts(2) seg by (simp add: n_def)
  have "generate_gradient colors steps = Inr (concat parts)"
    using seg parts(1)
    by (simp add: generate_gradient_def Let_def py_floordiv_def ebind_simps segments_def n_def)
  with len parts(3) show ?thesis
    by (auto simp add: segments_def n_def)
qed

subsection \<open>The escape pattern as a scan\<close>

text \<open>
  The three classes after the introducer are pairwise disjoint, so the backtracking of
  the two repetitions never finds a match that the greedy scan misses: the match, if
  there is one, is the introducer, the longest run of parameter code points, the longest
  run of intermediate code points and one final code point.
\<close>

lemma star_skip:
  assumes "\<And>c cs. cls c \<Longrightarrow> k (c # cs) = None"
  shows "star cls k xs = k (dropWhile cls xs)"
proof (induction xs)
  case Nil
  show ?case by simp
next
  case (Cons c cs)
  then show ?case by (cases "k (dropWhile cls cs)") (simp_all add: assms)
qed

lemma final_fails_on_inter: "is_inter c \<Longrightarrow> one is_final Some (c # cs) = None"
  by (simp add: one_def is_inter_def is_final_def)

lemma inter_star_fails_on_param:
  "is_param c \<Longrightarrow> star is_inter (one is_final Some) (c # cs) = None"
  by (simp add: one_def is_inter_def is_final_def is_param_def)

lemma ansi_escape_scan:
  "ansi_escape (27 # c1 # zs) =
     (if is_intro c1 then one is_final Some (dropWhile is_inter (dropWhile is_param zs)) else None)"
proof -
  have a: "star is_inter (one is_final Some) xs = one is_final Some (dropWhile is_inter xs)" for xs
    by (rule star_skip) (rule final_fails_on_inter)
  have b: "star is_param (star is_inter (one is_final Some)) xs
             = star is_inter (one is_final Some) (dropWhile is_param xs)" for xs
    by (rule star_skip) (rule inter_star_fails_on_param)
  show ?thesis
    by (simp add: ansi_escape_def one_def [of "\<lambda>c. c = 27"] one_def [of is_intro] a b)
qed

lemma ansi_escape_short: "ansi_escape [] = None" "ansi_escape [c] = None"
  "c \<noteq> 27 \<Longrightarrow> ansi_escape (c # cs) = None"
  by (simp_all add: ansi_escape_def one_def)

lemma digits_param: "\<forall>d\<in>set (digits n). is_param d"
proof (induction n rule: digits.induct)
  case (1 n)
  show ?case
  proof (cases "n < 10")
    case True
    then show ?thesis by (subst digits.simps) (simp add: is_param_def)
  next
    case False
    have "n mod 10 < 10" by simp
    then have "is_param (48 + n mod 10)" unfolding is_param_def by linarith
    with 1 False show ?thesis by (subst digits.simps) simp
  qed
qed

lemma rgb_code_shape:
  assumes "rgb_code c"
  shows "\<exists>ps. c = 27 # 91 # ps @ [109] \<and> (\<forall>p\<in>set ps. is_param p)"
proof -
  from assms obtain r g b where c: "c = color_code r g b" "0 \<le> r" "0 \<le> g" "0 \<le> b"
    unfolding rgb_code_def by blast
  let ?ps = "[51, 56, 59, 50, 59] @ digits (nat r) @ [59] @ digits (nat g) @ [59] @ digits (nat b)"
  have "c = 27 # 91 # ?ps @ [109]"
    using c by (simp add: color_code_def str_int_def)
  moreover have "\<forall>p\<in>set ?ps. is_param p"
    using digits_param by (auto simp add: is_param_def)
  ultimately show ?thesis by blast
qed

lemma strip_ansi_code:
  assumes "\<forall>p\<in>set ps. is_param p"
  shows "strip_ansi ((27 # 91 # ps @ [109]) @ rest) = strip_ansi rest"
proof -
  have "dropWhile is_param (ps @ 109 # rest) = 109 # rest"
    using assms by (simp add: is_param_def)
  then have "ansi_escape (27 # 91 # ps @ 109 # rest) = Some rest"
    by (simp add: ansi_escape_scan is_intro_def is_inter_def one_def is_final_def)
  then show ?thesis by simp
qed

lemma strip_ansi_colored:
  assumes "gradient \<noteq> []" and "\<forall>c\<in>set gradient. rgb_code c" and "27 \<notin> set text"
  shows "strip_ansi (concat (map (\<lambda>(k, ch). gradient ! nat ((int k + n) mod int (length gradient)) @ [ch])
          (enumerate i text))) = text"
  using assms(3)
proof (induction "text" arbitrary: i)
  case Nil
  show ?case by simp
next
  case (Cons ch rest)
  let ?L = "int (length gradient)"
  let ?code = "gradient ! nat ((int i + n) mod ?L)"
  from assms(1) have "0 < ?L" by simp
  then have "nat ((int i + n) mod ?L) < length gradient" by (simp add: nat_less_iff)
  then have "rgb_code ?code" using assms(2) by simp
  then obtain ps where ps: "?code = 27 # 91 # ps @ [109]" "\<forall>p\<in>set ps. is_param p"
    using rgb_code_shape by blast
  from Cons.prems have ch: "ch \<noteq> 27" and rest: "27 \<notin> set rest" by auto
  have "strip_ansi (?code @ ch # tl) = ch # strip_ansi tl" for tl
    unfolding ps(1) using strip_ansi_code [OF ps(2), of "ch # tl"] strip_ansi_keep [OF ch]
    by simp
  then show ?case using Cons.IH [OF rest] by simp
qed


lemma strip_ansi_spaces_left: "strip_ansi (replicate n 32 @ s) = replicate n 32 @ strip_ansi s"
  by (induction n) (simp_all add: strip_ansi_keep del: strip_ansi.simps)

lemma dropWhile_append_stop:
  "ys = [] \<or> \<not> P (hd ys) \<Longrightarrow> dropWhile P (xs @ ys) = dropWhile P xs @ ys"
  by (induction xs) (auto simp add: dropWhile_eq_self_iff)

lemma final_after_inter_spaces:
  "one is_final Some (dropWhile is_inter (ys @ replicate n 32))
     = map_option (\<lambda>r. r @ replicate n 32) (one is_final Some (dropWhile is_inter ys))"
proof (induction ys)
  case Nil
  have "dropWhile is_inter (replicate n 32) = []"
    by (simp add: is_inter_def)
  then show ?case by (simp add: one_def)
next
  case (Cons y ys)
  then show ?case by (simp add: one_def)
qed

lemma ansi_escape_spaces_right:
  "ansi_escape (xs @ replicate n 32) = map_option (\<lambda>r. r @ replicate n 32) (ansi_escape xs)"
proof (cases xs)
  case Nil
  then show ?thesis by (cases n) (simp_all add: ansi_escape_short)
next
  case (Cons c ys)
  show ?thesis
  proof (cases "c = 27")
    case False
    with Cons show ?thesis by (simp add: ansi_escape_short)
  next
    case True
    show ?thesis
    proof (cases ys)
      case Nil
      with Cons True show ?thesis
        by (cases n) (simp_all add: ansi_escape_short ansi_escape_scan is_intro_def)
    next
      case (Cons c1 zs)
      have "dropWhile is_param (zs @ replicate n 32) = dropWhile is_param zs @ replicate n 32"
        by (rule dropWhile_append_stop) (cases n, simp_all add: is_param_def)
      with \<open>xs = c # ys\<close> True Cons show ?thesis
        by (simp add: ansi_escape_scan final_after_inter_spaces)
    qed
  qed
qed

lemma strip_ansi_spaces_right: "strip_ansi (s @ replicate n 32) = strip_ansi s @ replicate n 32"
proof (induction s rule: strip_ansi.induct)
  case 1
  show ?case by (simp add: strip_ansi_no_esc)
next
  case (2 c cs)
  show ?case
  proof (cases "ansi_escape (c # cs)")
    case None
    then have "ansi_escape (c # cs @ replicate n 32) = None"
      using ansi_escape_spaces_right [of "c # cs" n] by simp
    with None 2(1) show ?thesis by simp
  next
    case (Some rest)
    then have "ansi_escape (c # cs @ replicate n 32) = Some (rest @ replicate n 32)"
      using ansi_escape_spaces_right [of "c # cs" n] by simp
    with Some 2(2) show ?thesis by simp
  qed
qed

lemma spec_wcswidth_append:
  "spec_wcswidth classify (a @ b) = spec_wcswidth classify a + spec_wcswidth classify b"
  by (simp add: spec_wcswidth_def)

lemma spec_wcswidth_spaces:
  "spec_wcwidth classify 32 = 1 \<Longrightarrow> spec_wcswidth classify (replicate n 32) = int n"
  by (induction n) (simp_all add: spec_wcswidth_def)

subsection \<open>The length of a returned gradient\<close>

lemma emap_length: "emap f xs = Inr ys \<Longrightarrow> length ys = length xs"
proof (induction xs arbitrary: ys)
  case Nil
  then show ?case by simp
next
  case (Cons x xs)
  then show ?case
    by (cases "f x"; cases "emap f xs") (auto simp add: ebind_simps)
qed

lemma emap_result: "emap f xs = Inr ys \<Longrightarrow> y \<in> set ys \<Longrightarrow> \<exists>x\<in>set xs. f x = Inr y"
proof (induction xs arbitrary: ys)
  case Nil
  then show ?case by simp
next
  case (Cons x xs)
  then show ?case
    by (cases "f x"; cases "emap f xs") (auto simp add: ebind_simps)
qed

lemma gradient_segment_length:
  assumes "gradient_segment colors n i = Inr codes"
  shows "length codes = nat n"
proof -
  from assms obtain a b where "emap (gradient_step a b n) (py_range n) = Inr codes"
    by (cases "py_index colors i"; cases "py_index colors (i + 1)")
       (auto simp add: gradient_segment_def ebind_simps)
  from emap_length [OF this] show ?thesis by (simp add: py_range_def)
qed

lemma generate_gradient_returned_length:
  assumes "2 \<le> length colors" and "generate_gradient colors steps = Inr gradient"
  shows "int (length gradient)
           = (int (length colors) - 1) * max 1 (steps div (int (length colors) - 1))"
proof -
  define segments where "segments = int (length colors) - 1"
  define n where "n = max 1 (steps div segments)"
  have seg: "0 < segments" using assms(1) by (simp add: segments_def)
  from assms(2) seg obtain parts
    where parts: "emap (gradient_segment colors n) (py_range segments) = Inr parts"
      and g: "gradient = concat parts"
    by (cases "emap (gradient_segment colors n) (py_range segments)")
       (auto simp add: generate_gradient_def Let_def py_floordiv_def ebind_simps
          segments_def n_def)
  have "length p = nat n" if "p \<in> set parts" for p
    using emap_result [OF parts that] gradient_segment_length by blast
  then have "length (concat parts) = length parts * nat n"
    by (induction parts) simp_all
  moreover have "length parts = nat segments"
    using emap_length [OF parts] by (simp add: py_range_def)
  ultimately have "int (length gradient) = int (nat segments) * int (nat n)"
    by (simp add: g)
  moreover have "1 \<le> n" by (simp add: n_def)
  ultimately have "int (length gradient) = segments * n"
    using seg by simp
  then show ?thesis unfolding n_def segments_def .
qed

subsection \<open>The gradient from black to white in ten steps\<close>

lemma gray_step:
  assumes "ebind (py_truediv j n) (channel s e) = Inr v"
  shows "gradient_step (s, s, s) (e, e, e) n j = Inr (color_code v v v)"
proof (cases "py_truediv j n")
  case (Inl err)
  with assms show ?thesis by (simp add: ebind_simps)
next
  case (Inr t)
  with assms have "channel s e t = Inr v" by (simp add: ebind_simps)
  with Inr show ?thesis
    by (simp add: gradient_step_def ebind_simps red_def green_def blue_def)
qed

lemma black_white_0: "ebind (py_truediv 0 10) (channel 0 255) = Inr 0"
  by code_simp

lemma black_white_1: "ebind (py_truediv 1 10) (channel 0 255) = Inr 25"
  by code_simp

lemma black_white_2: "ebind (py_truediv 2 10) (channel 0 255) = Inr 51"
  by code_simp

lemma black_white_3: "ebind (py_truediv 3 10) (channel 0 255) = Inr 76"
  by code_simp

lemma black_white_4: "ebind (py_truediv 4 10) (channel 0 255) = Inr 102"
  by code_simp

lemma black_white_5: "ebind (py_truediv 5 10) (channel 0 255) = Inr 127"
  by code_simp

lemma black_white_6: "ebind (py_truediv 6 10) (channel 0 255) = Inr 153"
  by code_simp

lemma black_white_7: "ebind (py_truediv 7 10) (channel 0 255) = Inr 178"
  by code_simp

lemma black_white_8: "ebind (py_truediv 8 10) (channel 0 255) = Inr 204"
  by code_simp

lemma black_white_9: "ebind (py_truediv 9 10) (channel 0 255) = Inr 229"
  by code_simp

lemma black_white_gradient:
  "generate_gradient [(0, 0, 0), (255, 255, 255)] 10 = Inr (map (\<lambda>v. color_code v v v) [0, 25, 51, 76, 102, 127, 153, 178, 204, 229])"
proof -
  have r: "py_range 10 = [0, 1, 2, 3, 4, 5, 6, 7, 8, 9]" "py_range 1 = [0]"
    by (simp_all add: py_range_def upt_rec)
  have "gradient_segment [(0, 0, 0), (255, 255, 255)] 10 0 = Inr (map (\<lambda>v. color_code v v v) [0, 25, 51, 76, 102, 127, 153, 178, 204, 229])"
    by (simp add: gradient_segment_def py_index_def ebind_simps r
        gray_step [OF black_white_0] gray_step [OF black_white_1] gray_step [OF black_white_2]
        gray_step [OF black_white_3] gray_step [OF black_white_4] gray_step [OF black_white_5]
        gray_step [OF black_white_6] gray_step [OF black_white_7] gray_step [OF black_white_8]
        gray_step [OF black_white_9])
  then show ?thesis
    by (simp add: generate_gradient_def py_floordiv_def ebind_simps r)
qed

subsection \<open>generate_gradient with fewer than two key colors\<close>

text \<open>
  C2, as the code has it. \<open>generate_gradient\<close> does not check its input. With exactly one
  key color \<open>segments\<close> is 0 and \<open>steps // segments\<close> raises ZeroDivisionError, whatever
  \<open>steps\<close> is. With no key color \<open>segments\<close> is \<open>-1\<close>, the division succeeds, the outer loop
  runs over the empty \<open>range(-1)\<close> and the call returns the empty list without failing.
\<close>

theorem generate_gradient_too_few_colors:
  "generate_gradient [c] steps = Inl ZeroDivisionError \<and> generate_gradient [] steps = Inr []"
  by (simp add: generate_gradient_def py_floordiv_def py_range_def ebind_simps)

text \<open>
  C2 as stated fails: called with the empty list of key colors and 5 steps,
  \<open>generate_gradient\<close> returns the empty gradient instead of failing.
\<close>

theorem generate_gradient_no_colors_returns:
  "generate_gradient [] 5 = Inr []"
  by (simp add: generate_gradient_def py_floordiv_def py_range_def ebind_simps)

subsection \<open>generate_gradient with at least two key colors\<close>

text \<open>
  C1. Take at least two key colors and any step count, negative ones included. Whenever
  \<open>generate_gradient\<close> returns a list, its length is \<open>segments * steps_per_segment\<close>, where
  \<open>segments = len(colors) - 1\<close> and \<open>steps_per_segment = max(1, steps // segments)\<close>, so
  the list is never empty; nothing makes up for a step count that the number of segments
  does not divide. For key colors of the data model the call does return a list.
\<close>

theorem generate_gradient_length:
  assumes "2 \<le> length colors"
  shows "(list_all valid_color colors \<longrightarrow> (\<exists>gradient. generate_gradient colors steps = Inr gradient))
       \<and> (\<forall>gradient. generate_gradient colors steps = Inr gradient \<longrightarrow>
            int (length gradient)
              = (int (length colors) - 1) * max 1 (steps div (int (length colors) - 1))
            \<and> 1 \<le> length gradient)"
proof -
  have "\<exists>gradient. generate_gradient colors steps = Inr gradient" if "list_all valid_color colors"
  proof -
    from that have "\<forall>c\<in>set colors. valid_color c" by (simp add: list_all_iff)
    from generate_gradient_valid [OF assms this, of steps] show ?thesis by blast
  qed
  moreover have "1 \<le> length gradient"
    if "int (length gradient)
          = (int (length colors) - 1) * max 1 (steps div (int (length colors) - 1))"
    for gradient :: "ustring list"
  proof -
    have "0 < int (length colors) - 1" using assms by simp
    then have "0 < (int (length colors) - 1) * max 1 (steps div (int (length colors) - 1))"
      by (intro mult_pos_pos) simp_all
    with that show ?thesis by simp
  qed
  ultimately show ?thesis
    using generate_gradient_returned_length [OF assms] by blast
qed

theorem generate_gradient_length_witness:
  "(2::nat) \<le> length [(75, 0, 130), (138, 43, 226), (148, 0, 211 :: int)]
   \<and> list_all valid_color [(75, 0, 130), (138, 43, 226), (148, 0, 211)]
   \<and> map_sum id length (generate_gradient [(75, 0, 130), (138, 43, 226), (148, 0, 211)] 7) = Inr 6"
proof -
  have h1: "2 \<le> length [(75, 0, 130), (138, 43, 226), (148, 0, 211 :: int)]" by simp
  have h2: "list_all valid_color [(75, 0, 130), (138, 43, 226), (148, 0, 211)]"
    by (simp add: valid_color_def red_def green_def blue_def)
  note th = generate_gradient_length [OF h1, of 7]
  from th h2 obtain gradient
    where g: "generate_gradient [(75, 0, 130), (138, 43, 226), (148, 0, 211)] 7 = Inr gradient"
    by blast
  with th have "int (length gradient) = 6" by auto
  with g h1 h2 show ?thesis by simp
qed

text \<open>
  C5 as stated fails: two key colors make one segment of \<open>max(1, 10 // 1) = 10\<close> steps, so
  the call yields 10 color codes, not 9.
\<close>

theorem generate_gradient_black_white_length:
  "map_sum id length (generate_gradient [(0, 0, 0), (255, 255, 255)] 10) = Inr 10
   \<and> map_sum id length (generate_gradient [(0, 0, 0), (255, 255, 255)] 10) \<noteq> Inr 9"
  by (simp add: black_white_gradient)

text \<open>
  C5, amended: the call yields exactly 10 color codes; in each of them the red, green and
  blue fields are equal, and from one code to the next the value ascends strictly, from
  0 (black) to 229, each value being \<open>255 * j / 10\<close> cut to an integer.
\<close>

theorem generate_gradient_black_white:
  "generate_gradient [(0, 0, 0), (255, 255, 255)] 10 = Inr (map (\<lambda>v. color_code v v v) [0, 25, 51, 76, 102, 127, 153, 178, 204, 229])
   \<and> length (map (\<lambda>v. color_code v v v) [0, 25, 51, 76, 102, 127, 153, 178, 204, 229]) = 10
   \<and> sorted_wrt (<) [0, 25, 51, 76, 102, 127, 153, 178, 204, 229 :: int]
   \<and> [0, 25, 51, 76, 102, 127, 153, 178, 204, 229] = map (\<lambda>j. 255 * j div 10) [0, 1, 2, 3, 4, 5, 6, 7, 8, 9 :: int]"
  by (simp add: black_white_gradient)

subsection \<open>apply_gradient\<close>

text \<open>
  C3. For a non-empty gradient, \<open>apply_gradient\<close> returns the concatenation, in the order
  of the text, of one piece per code point, the piece for position \<open>i\<close> being
  \<open>gradient[(i + n) mod len(gradient)]\<close> followed by the code point itself. So for two
  positions \<open>i1\<close> of a line rendered with index \<open>line1\<close> and \<open>i2\<close> of a line rendered with
  index \<open>line2\<close> such that \<open>i1 + line1\<close> and \<open>i2 + line2\<close> are congruent modulo the length
  of the gradient, the color codes in front of the two code points are the same.
\<close>

theorem apply_gradient_diagonal:
  assumes "gradient \<noteq> []"
  shows "(\<exists>ps. colored_chars 0 text gradient n = Inr ps
            \<and> apply_gradient text gradient n = Inr (concat ps)
            \<and> length ps = length text
            \<and> (\<forall>i<length text.
                  ps ! i = gradient ! nat ((int i + n) mod int (length gradient)) @ [text ! i]))
       \<and> (\<forall>ps1 ps2. colored_chars 0 text1 gradient line1 = Inr ps1
            \<and> colored_chars 0 text2 gradient line2 = Inr ps2
            \<and> i1 < length text1 \<and> i2 < length text2
            \<and> (int i1 + line1) mod int (length gradient) = (int i2 + line2) mod int (length gradient)
            \<longrightarrow> butlast (ps1 ! i1) = butlast (ps2 ! i2)
              \<and> butlast (ps1 ! i1) = gradient ! nat ((int i1 + line1) mod int (length gradient)))"
  by (auto simp add: colored_chars_nonempty [OF assms] apply_gradient_def nth_enumerate_eq)

theorem apply_gradient_diagonal_witness:
  "[[27, 91, 51, 49, 109], [27, 91, 51, 50, 109]] \<noteq> ([] :: ustring list)
   \<and> colored_chars 0 [97, 98, 99] [[27, 91, 51, 49, 109], [27, 91, 51, 50, 109]] 0
       = Inr [[27, 91, 51, 49, 109, 97], [27, 91, 51, 50, 109, 98], [27, 91, 51, 49, 109, 99]]
   \<and> colored_chars 0 [120, 121] [[27, 91, 51, 49, 109], [27, 91, 51, 50, 109]] 1
       = Inr [[27, 91, 51, 50, 109, 120], [27, 91, 51, 49, 109, 121]]
   \<and> (2::nat) < length [97, 98, 99 :: nat] \<and> (1::nat) < length [120, 121 :: nat]
   \<and> (int 2 + 0) mod int (length [[27, 91, 51, 49, 109], [27, 91, 51, 50, 109 :: nat]])
       = (int 1 + 1) mod int (length [[27, 91, 51, 49, 109], [27, 91, 51, 50, 109 :: nat]])
   \<and> butlast ([[27, 91, 51, 49, 109, 97], [27, 91, 51, 50, 109, 98], [27, 91, 51, 49, 109, 99 :: nat]] ! 2)
       = butlast ([[27, 91, 51, 50, 109, 120], [27, 91, 51, 49, 109, 121 :: nat]] ! 1)
   \<and> apply_gradient [97, 98, 99] [[27, 91, 51, 49, 109], [27, 91, 51, 50, 109]] 0
       = Inr [27, 91, 51, 49, 109, 97, 27, 91, 51, 50, 109, 98, 27, 91, 51, 49, 109, 99]"
proof -
  have ne: "[[27, 91, 51, 49, 109], [27, 91, 51, 50, 109]] \<noteq> ([] :: ustring list)" by simp
  show ?thesis
    using apply_gradient_diagonal [OF ne, of "[97, 98, 99]" 0 "[97, 98, 99]" 0 "[120, 121]" 1 2 1]
    by (simp add: py_mod_def py_index_def apply_gradient_def)
qed

text \<open>
  C10. With an empty gradient, \<open>apply_gradient\<close> returns the empty string for the empty
  text, where the index expression is never evaluated, and raises ZeroDivisionError for
  every non-empty text. With a non-empty gradient it returns a string for every text and
  every line number, negative ones included.
\<close>

theorem apply_gradient_totality:
  "apply_gradient [] [] n = Inr []
   \<and> (text \<noteq> [] \<longrightarrow> apply_gradient text [] n = Inl ZeroDivisionError)
   \<and> (gradient \<noteq> [] \<longrightarrow> (\<exists>out. apply_gradient text gradient n = Inr out))"
proof -
  have "apply_gradient text [] n = Inl ZeroDivisionError" if "text \<noteq> []"
    using that by (cases "text") (simp_all add: apply_gradient_def py_mod_def)
  moreover have "\<exists>out. apply_gradient text gradient n = Inr out" if "gradient \<noteq> []"
    by (simp add: apply_gradient_def colored_chars_nonempty [OF that])
  ultimately show ?thesis by (simp add: apply_gradient_def)
qed

theorem apply_gradient_totality_witness:
  "[104, 105] \<noteq> ([] :: ustring)
   \<and> apply_gradient [104, 105] [] (- 3) = Inl ZeroDivisionError
   \<and> [[27, 91, 109], [27, 91, 49, 109]] \<noteq> ([] :: ustring list)
   \<and> apply_gradient [104, 105] [[27, 91, 109], [27, 91, 49, 109]] (- 3)
       = Inr [27, 91, 49, 109, 104, 27, 91, 109, 105]"
  using apply_gradient_totality [of "- 3" "[104, 105]" "[[27, 91, 109], [27, 91, 49, 109]]"]
  by (simp add: apply_gradient_def py_mod_def py_index_def)

subsection \<open>strip_ansi\<close>

text \<open>
  C6 as stated fails. In \<open>ESC ESC [ m [ m\<close> the first ESC starts no escape sequence, the
  second starts \<open>ESC [ m\<close>, which is removed; what is left, \<open>ESC [ m\<close>, is an escape
  sequence again, and a second pass removes it.
\<close>

theorem strip_ansi_not_idempotent:
  "strip_ansi (strip_ansi [27, 27, 91, 109, 91, 109]) \<noteq> strip_ansi [27, 27, 91, 109, 91, 109]"
  by (simp add: ansi_escape_def one_def is_intro_def is_param_def is_inter_def is_final_def)

text \<open>
  C6, amended: stripping a second time changes nothing whenever the first pass has left
  no ESC code point (0x1B) in its result.
\<close>

theorem strip_ansi_idempotent_no_esc:
  "27 \<notin> set (strip_ansi s) \<Longrightarrow> strip_ansi (strip_ansi s) = strip_ansi s"
  by (rule strip_ansi_no_esc)

theorem strip_ansi_idempotent_no_esc_witness:
  "27 \<notin> set (strip_ansi [27, 91, 51, 49, 109, 104, 105])
   \<and> strip_ansi (strip_ansi [27, 91, 51, 49, 109, 104, 105]) = strip_ansi [27, 91, 51, 49, 109, 104, 105]
   \<and> strip_ansi [27, 91, 51, 49, 109, 104, 105] = [104, 105]"
proof -
  have s: "strip_ansi [27, 91, 51, 49, 109, 104, 105] = [104, 105]"
    by (simp add: ansi_escape_def one_def is_intro_def is_param_def is_inter_def is_final_def)
  then have h: "27 \<notin> set (strip_ansi [27, 91, 51, 49, 109, 104, 105])" by simp
  show ?thesis using h strip_ansi_idempotent_no_esc [OF h] s by simp
qed

subsection \<open>Coloring, then stripping\<close>

text \<open>
  C9. Take key colors of the data model, a gradient that \<open>generate_gradient\<close> returns for
  them and that is not empty, a text without the code point ESC (0x1B) and any line
  number. Then \<open>apply_gradient\<close> returns a string, and stripping the escape sequences from
  it gives back the text, code point by code point.
\<close>

theorem strip_apply_gradient_roundtrip:
  assumes "list_all valid_color colors"
    and "generate_gradient colors steps = Inr gradient" and "gradient \<noteq> []"
    and "27 \<notin> set text"
  shows "\<exists>out. apply_gradient text gradient n = Inr out \<and> strip_ansi out = text"
proof -
  have "2 \<le> length colors"
  proof (rule ccontr)
    assume "\<not> 2 \<le> length colors"
    then have "length colors = 0 \<or> length colors = 1" by linarith
    then show False
    proof
      assume "length colors = 0"
      with assms(2,3) show False
        by (simp add: generate_gradient_def py_floordiv_def py_range_def ebind_simps)
    next
      assume "length colors = 1"
      with assms(2) show False
        by (simp add: generate_gradient_def py_floordiv_def ebind_simps)
    qed
  qed
  from generate_gradient_valid [OF this, of steps] assms(1,2)
  have codes: "\<forall>c\<in>set gradient. rgb_code c" by (auto simp add: list_all_iff)
  show ?thesis
    by (simp add: apply_gradient_def colored_chars_nonempty [OF assms(3)]
        strip_ansi_colored [OF assms(3) codes assms(4)])
qed

theorem strip_apply_gradient_roundtrip_witness:
  "list_all valid_color [(0, 0, 0), (255, 255, 255)]
   \<and> generate_gradient [(0, 0, 0), (255, 255, 255)] 10 = Inr (map (\<lambda>v. color_code v v v) [0, 25, 51, 76, 102, 127, 153, 178, 204, 229])
   \<and> map (\<lambda>v. color_code v v v) [0, 25, 51, 76, 102, 127, 153, 178, 204, 229] \<noteq> []
   \<and> 27 \<notin> set [104, 105 :: nat]
   \<and> (\<exists>out. apply_gradient [104, 105] (map (\<lambda>v. color_code v v v) [0, 25, 51, 76, 102, 127, 153, 178, 204, 229]) 1 = Inr out \<and> strip_ansi out = [104, 105])"
proof -
  have h1: "list_all valid_color [(0, 0, 0), (255, 255, 255)]"
    by (simp add: valid_color_def red_def green_def blue_def)
  have h3: "map (\<lambda>v. color_code v v v) [0, 25, 51, 76, 102, 127, 153, 178, 204, 229] \<noteq> []" by simp
  have h4: "27 \<notin> set [104, 105 :: nat]" by simp
  from strip_apply_gradient_roundtrip [OF h1 black_white_gradient h3 h4, of 1]
  show ?thesis using h1 black_white_gradient by simp
qed

text \<open>
  The range of the channels matters for the round trip. A negative channel is outside the
  data model, yet a tuple of \<open>int\<close>s can hold it: its field in the color code then starts
  with \<open>-\<close>, the pattern does not match the code, and stripping leaves it in place.
\<close>

lemma negative_channel_gradient:
  "generate_gradient [(- 1, 0, 0), (0, 0, 0)] 1 = Inr [color_code (- 1) 0 0]"
  by code_simp

lemma negative_channel_not_stripped:
  "apply_gradient [97] [color_code (- 1) 0 0] 0
     = Inr [27, 91, 51, 56, 59, 50, 59, 45, 49, 59, 48, 59, 48, 109, 97]
   \<and> strip_ansi [27, 91, 51, 56, 59, 50, 59, 45, 49, 59, 48, 59, 48, 109, 97]
     = [27, 91, 51, 56, 59, 50, 59, 45, 49, 59, 48, 59, 48, 109, 97]"
  by code_simp

subsection \<open>center_text\<close>

text \<open>
  C7. When the measured width of the line exceeds \<open>width\<close>, \<open>center_text\<close> returns the line
  itself: the left padding is \<open>max\<close> of a negative number and 0, the right padding is a
  negative number of spaces, which is the empty string, and nothing is cut off the line.
  This holds whatever \<open>wcswidth\<close> returns.
\<close>

theorem center_text_overflow:
  "width < wcswidth (strip_ansi line) \<Longrightarrow> center_text wcswidth line width = line"
  by (simp add: center_text_def spaces_def Let_def max_def)

theorem center_text_overflow_witness:
  "2 < int (length (strip_ansi [27, 91, 51, 49, 109, 104, 105, 33]))
   \<and> center_text (\<lambda>s. int (length s)) [27, 91, 51, 49, 109, 104, 105, 33] 2
       = [27, 91, 51, 49, 109, 104, 105, 33]"
proof -
  have h: "2 < int (length (strip_ansi [27, 91, 51, 49, 109, 104, 105, 33]))"
    by (simp add: ansi_escape_def one_def is_intro_def is_param_def is_inter_def is_final_def)
  show ?thesis
    using h center_text_overflow [of 2 "\<lambda>s. int (length s)" "[27, 91, 51, 49, 109, 104, 105, 33]", OF h]
    by simp
qed

text \<open>
  C4. Here the measurement is the one of the specification, over a classification table in
  which a space is one column wide. Whenever the visible width \<open>v\<close> of \<open>s\<close> is at most
  \<open>w\<close>, \<open>center_text\<close> returns \<open>s\<close>, escape sequences included, between
  \<open>max((w - v) // 2, 0)\<close> spaces on the left and \<open>w - left - v\<close> spaces on the right,
  neither number negative, and the visible width of the result is exactly \<open>w\<close>.
\<close>

theorem center_text_fills_width:
  assumes "spec_wcwidth classify 32 = 1" and "visibleWidth classify s \<le> w"
  shows "let v = visibleWidth classify s;
             left = max ((w - v) div 2) 0;
             right = w - left - v
         in center_text (spec_wcswidth classify) s w = replicate (nat left) 32 @ s @ replicate (nat right) 32
            \<and> 0 \<le> left \<and> 0 \<le> right
            \<and> visibleWidth classify (center_text (spec_wcswidth classify) s w) = w"
proof -
  define v where "v = visibleWidth classify s"
  define left where "left = max ((w - v) div 2) 0"
  define right where "right = w - left - v"
  have l0: "0 \<le> left" by (simp add: left_def)
  have r0: "0 \<le> right" using assms(2) unfolding right_def left_def v_def by simp
  have c: "center_text (spec_wcswidth classify) s w = replicate (nat left) 32 @ s @ replicate (nat right) 32"
    by (simp add: center_text_def Let_def spaces_def left_def right_def v_def visibleWidth_def)
  have "visibleWidth classify (replicate (nat left) 32 @ s @ replicate (nat right) 32)
          = int (nat left) + v + int (nat right)"
    using strip_ansi_spaces_right [of "replicate (nat left) 32 @ s" "nat right"]
    by (simp add: visibleWidth_def strip_ansi_spaces_left spec_wcswidth_append
        spec_wcswidth_spaces [OF assms(1)] v_def)
  also have "\<dots> = w" using l0 r0 by (simp add: right_def)
  finally have "visibleWidth classify (center_text (spec_wcswidth classify) s w) = w"
    by (simp only: c)
  with c l0 r0 show ?thesis
    unfolding Let_def v_def left_def right_def by blast
qed

theorem center_text_fills_width_witness:
  "spec_wcwidth (\<lambda>c. if c = 20013 then Some Wide else Some Narrow) 32 = 1
   \<and> visibleWidth (\<lambda>c. if c = 20013 then Some Wide else Some Narrow)
         [27, 91, 51, 49, 109, 20013, 97] = 3
   \<and> (3::int) \<le> 8
   \<and> center_text (spec_wcswidth (\<lambda>c. if c = 20013 then Some Wide else Some Narrow))
         [27, 91, 51, 49, 109, 20013, 97] 8
       = [32, 32, 27, 91, 51, 49, 109, 20013, 97, 32, 32, 32]
   \<and> visibleWidth (\<lambda>c. if c = 20013 then Some Wide else Some Narrow)
         (center_text (spec_wcswidth (\<lambda>c. if c = 20013 then Some Wide else Some Narrow))
            [27, 91, 51, 49, 109, 20013, 97] 8) = 8"
proof -
  let ?C = "\<lambda>c::nat. if c = 20013 then Some Wide else Some Narrow"
  let ?s = "[27, 91, 51, 49, 109, 20013, 97] :: ustring"
  have h1: "spec_wcwidth ?C 32 = 1" by (simp add: spec_wcwidth_def)
  have s: "strip_ansi ?s = [20013, 97]"
    by (simp add: ansi_escape_def one_def is_intro_def is_param_def is_inter_def is_final_def)
  have v: "visibleWidth ?C ?s = 3"
    by (simp add: visibleWidth_def s spec_wcswidth_def spec_wcwidth_def del: strip_ansi.simps)
  then have h2: "visibleWidth ?C ?s \<le> 8" by simp
  have r: "replicate 2 (32::nat) = [32, 32]" "replicate 3 (32::nat) = [32, 32, 32]"
    by (simp_all add: numeral_2_eq_2 numeral_3_eq_3)
  note th = center_text_fills_width [OF h1 h2, unfolded Let_def v]
  have w: "visibleWidth ?C (center_text (spec_wcswidth ?C) ?s 8) = 8"
    using th by blast
  have "center_text (spec_wcswidth ?C) ?s 8
          = replicate (nat (max ((8 - 3) div 2) 0)) 32 @ ?s
            @ replicate (nat (8 - max ((8 - 3) div 2) 0 - 3)) 32"
    using th by blast
  then have c: "center_text (spec_wcswidth ?C) ?s 8
          = [32, 32, 27, 91, 51, 49, 109, 20013, 97, 32, 32, 32]"
    by (simp add: r)
  show ?thesis using h1 v c w by simp
qed

text \<open>
  C8. Here the measurement is the one of the specification: strip the escape sequences,
  then add up the widths of the code points. It is defined for every string, its result
  is never negative, and a code point that the classification table does not know adds
  exactly 1 to the width of a string, wherever it stands.
\<close>

theorem visibleWidth_never_fails:
  "0 \<le> visibleWidth classify line
   \<and> (classify c = None \<longrightarrow>
        spec_wcswidth classify (xs @ c # ys)
          = spec_wcswidth classify xs + 1 + spec_wcswidth classify ys)"
proof -
  have "0 \<le> spec_wcwidth classify d" for d
    by (simp add: spec_wcwidth_def split: option.split width_class.split)
  then have "0 \<le> spec_wcswidth classify s" for s
    unfolding spec_wcswidth_def by (induction s) (simp_all add: add_nonneg_nonneg)
  then show ?thesis
    by (simp add: visibleWidth_def spec_wcswidth_def spec_wcwidth_def)
qed

theorem visibleWidth_never_fails_witness:
  "(\<lambda>c::nat. if c < 128 then Some Narrow else None) 888 = None
   \<and> spec_wcswidth (\<lambda>c. if c < 128 then Some Narrow else None) ([104] @ 888 # [105]) = 3
   \<and> visibleWidth (\<lambda>c. if c < 128 then Some Narrow else None) [27, 91, 109, 104, 888, 105] = 3"
proof -
  have s: "strip_ansi [27, 91, 109, 104, 888, 105] = [104, 888, 105]"
    by (simp add: ansi_escape_def one_def is_intro_def is_param_def is_inter_def is_final_def)
  show ?thesis
    using visibleWidth_never_fails [of "\<lambda>c. if c < 128 then Some Narrow else None"
        "[27, 91, 109, 104, 888, 105]" 888 "[104]" "[105]"]
    by (simp add: visibleWidth_def s spec_wcswidth_def spec_wcwidth_def del: strip_ansi.simps)
qed

end
